theory Spec2Isabelle
  imports Main
begin

section \<open>The output channel\<close>

text \<open>
  \<^verbatim>\<open>processConcurrently\<close> writes to a \<^verbatim>\<open>ReadableStreamDefaultController\<close> at four places:
  the heartbeat callback (line 41), the item result and its record separator (lines 66
  and 67) and the terminal signal (line 51). A chunk records which of these writes put
  it on the channel; \<open>wire\<close> is the string handed to \<^verbatim>\<open>controller.enqueue\<close>.
\<close>

datatype chunk = Heartbeat | ItemResult string | Separator | EndOfStream

definition wire :: "chunk \<Rightarrow> string" where
  "wire c = (case c of
       Heartbeat \<Rightarrow> [CHR '':'', CHR 0x0A, CHR 0x0A]
     | ItemResult itemString \<Rightarrow> itemString
     | Separator \<Rightarrow> [CHR 0x0A]
     | EndOfStream \<Rightarrow> ''event: end-of-stream'' @ [CHR 0x0A, CHR 0x0A])"

datatype err = TypeError | Failure string

text \<open>
  The controller is the platform's, not the repository's. What the model keeps of it:
  the chunks enqueued so far, in order, and whether the stream has left its readable
  state (closed, cancelled or errored). \<^verbatim>\<open>enqueue\<close> on a stream that is no longer
  readable throws a \<^verbatim>\<open>TypeError\<close> and enqueues nothing.
\<close>

record controller =
  chunks :: "chunk list"
  closed :: bool

definition new_controller :: controller where
  "new_controller = \<lparr>chunks = [], closed = False\<rparr>"

definition enqueue :: "chunk \<Rightarrow> controller \<Rightarrow> err + controller" where
  "enqueue c ctl =
     (if closed ctl then Inl TypeError else Inr (ctl\<lparr>chunks := chunks ctl @ [c]\<rparr>))"

definition close :: "controller \<Rightarrow> controller" where
  "close ctl = ctl\<lparr>closed := True\<rparr>"

section \<open>processConcurrently\<close>

text \<open>
  A call of the transform returns a promise; when it settles it either resolves with a
  string or null, or rejects. \<open>truthy\<close> is the test \<^verbatim>\<open>if (itemString)\<close>: null and the
  empty string are skipped.
\<close>

datatype outcome = Resolves "string option" | Rejects err

fun truthy :: "string option \<Rightarrow> bool" where
  "truthy None = False"
| "truthy (Some itemString) = (itemString \<noteq> [])"

datatype timer = Running | Cleared

datatype settlement = Pending | Resolved | Rejected err

text \<open>
  The variables of one run: \<open>queue\<close> and \<open>activePromises\<close> as in the source, the
  interval timer \<open>heartbeat\<close>, the promise returned to the caller, and the controller.
  \<open>pending\<close> holds the calls of \<^verbatim>\<open>processItem\<close> that have been made and whose \<^verbatim>\<open>await\<close>
  has not resumed yet, each with its item and with what its promise settles to;
  \<open>invoked\<close> logs the argument of every call of \<^verbatim>\<open>processItem\<close> in order;
  \<open>unhandled\<close> collects the exceptions that leave the async function \<^verbatim>\<open>processNext\<close>
  (its promise rejects and nothing awaits it); \<open>clears\<close> counts the calls of
  \<^verbatim>\<open>clearInterval(heartbeat)\<close>.
\<close>

record 'a run =
  queue :: "'a list"
  activePromises :: int
  heartbeat :: timer
  promise :: settlement
  controller :: controller
  pending :: "('a \<times> outcome) list"
  invoked :: "'a list"
  unhandled :: "err list"
  clears :: nat

text \<open>Settling a promise that is already settled has no effect.\<close>

definition resolve :: "'a run \<Rightarrow> 'a run" where
  "resolve s = (if promise s = Pending then s\<lparr>promise := Resolved\<rparr> else s)"

definition reject :: "err \<Rightarrow> 'a run \<Rightarrow> 'a run" where
  "reject e s = (if promise s = Pending then s\<lparr>promise := Rejected e\<rparr> else s)"

text \<open>
  \<^verbatim>\<open>processNext\<close> up to its \<^verbatim>\<open>await\<close> (lines 49 to 64): the termination branch, the
  early return, or the dequeue of the next item and the call of the transform, whose
  promise joins the pending ones.
\<close>

definition processNext :: "int \<Rightarrow> ('a \<Rightarrow> outcome) \<Rightarrow> 'a run \<Rightarrow> 'a run" where
  "processNext concurrency processItem s =
     (if queue s = [] \<and> activePromises s = 0 then
        (let s1 = s\<lparr>heartbeat := Cleared, clears := clears s + 1\<rparr> in
         case enqueue EndOfStream (controller s1) of
           Inl e \<Rightarrow> s1\<lparr>unhandled := unhandled s1 @ [e]\<rparr>
         | Inr ctl \<Rightarrow> resolve (s1\<lparr>controller := ctl\<rparr>))
      else if queue s = [] \<or> activePromises s \<ge> concurrency then s
      else
        (case queue s of
           [] \<Rightarrow> s
         | item # rest \<Rightarrow>
             s\<lparr>queue := rest,
               activePromises := activePromises s + 1,
               pending := pending s @ [(item, processItem item)],
               invoked := invoked s @ [item]\<rparr>))"

text \<open>
  The rest of \<^verbatim>\<open>processNext\<close> (lines 64 to 74), run when the transform call of the
  \<open>i\<close>-th pending item settles. \<open>write_result\<close> is the body of the \<^verbatim>\<open>try\<close> after the
  \<^verbatim>\<open>await\<close>: the two writes of a non-empty result, a failing write going to the
  \<^verbatim>\<open>catch\<close>. \<open>settle_call\<close> adds the \<^verbatim>\<open>catch\<close> of a rejected call and the decrement of
  the \<^verbatim>\<open>finally\<close>; \<open>resume\<close> ends with the \<^verbatim>\<open>finally\<close>'s call of \<^verbatim>\<open>processNext\<close>.
\<close>

definition write_result :: "string option \<Rightarrow> 'a run \<Rightarrow> 'a run" where
  "write_result itemString s =
     (case itemString of
        None \<Rightarrow> s
      | Some str \<Rightarrow>
          if truthy (Some str) then
            (case enqueue (ItemResult str) (controller s) of
               Inl e \<Rightarrow> reject e s
             | Inr c1 \<Rightarrow>
                 (case enqueue Separator c1 of
                    Inl e \<Rightarrow> reject e (s\<lparr>controller := c1\<rparr>)
                  | Inr c2 \<Rightarrow> s\<lparr>controller := c2\<rparr>))
          else s)"

definition settle_call :: "nat \<Rightarrow> 'a run \<Rightarrow> 'a run" where
  "settle_call i s =
     (let settled = snd (pending s ! i);
          s0 = s\<lparr>pending := take i (pending s) @ drop (Suc i) (pending s)\<rparr>;
          s1 = (case settled of
                  Resolves itemString \<Rightarrow> write_result itemString s0
                | Rejects e \<Rightarrow> reject e s0)
      in s1\<lparr>activePromises := activePromises s1 - 1\<rparr>)"

definition resume :: "int \<Rightarrow> ('a \<Rightarrow> outcome) \<Rightarrow> nat \<Rightarrow> 'a run \<Rightarrow> 'a run" where
  "resume concurrency processItem i s =
     processNext concurrency processItem (settle_call i s)"

text \<open>The heartbeat callback (lines 40 to 44): the write, with its failure caught and logged.\<close>

definition beat :: "'a run \<Rightarrow> 'a run" where
  "beat s =
     (case enqueue Heartbeat (controller s) of
        Inl e \<Rightarrow> s
      | Inr ctl \<Rightarrow> s\<lparr>controller := ctl\<rparr>)"

text \<open>
  The loop of lines 77 to 79 and the call itself: the queue is a copy of the items, the
  counter is zero, the timer is started, and \<^verbatim>\<open>processNext\<close> is called \<open>concurrency\<close> times.
\<close>

function launch :: "int \<Rightarrow> int \<Rightarrow> ('a \<Rightarrow> outcome) \<Rightarrow> 'a run \<Rightarrow> 'a run" where
  "launch i concurrency processItem s =
     (if i < concurrency
      then launch (i + 1) concurrency processItem (processNext concurrency processItem s)
      else s)"
  by pat_completeness auto
termination
  by (relation "measure (\<lambda>(i, concurrency, processItem, s). nat (concurrency - i))") auto

declare launch.simps [simp del]

definition processConcurrently ::
  "'a list \<Rightarrow> ('a \<Rightarrow> outcome) \<Rightarrow> controller \<Rightarrow> int \<Rightarrow> 'a run" where
  "processConcurrently items processItem ctl concurrency =
     launch 0 concurrency processItem
       \<lparr>queue = items, activePromises = 0, heartbeat = Running, promise = Pending,
        controller = ctl, pending = [], invoked = [], unhandled = [], clears = 0\<rparr>"

text \<open>
  What happens to a run after the call has returned its promise: the transform call of a
  pending item settles, the interval timer fires, or the stream stops being readable
  (the client disconnects, or the endpoint closes it). An event that cannot occur in a
  state (no such pending call, timer cleared) has no successor.
\<close>

datatype event = Settle nat | Tick | Disconnect

fun step :: "int \<Rightarrow> ('a \<Rightarrow> outcome) \<Rightarrow> event \<Rightarrow> 'a run \<Rightarrow> 'a run option" where
  "step concurrency processItem (Settle i) s =
     (if i < length (pending s) then Some (resume concurrency processItem i s) else None)"
| "step concurrency processItem Tick s =
     (if heartbeat s = Running then Some (beat s) else None)"
| "step concurrency processItem Disconnect s =
     Some (s\<lparr>controller := close (controller s)\<rparr>)"

fun exec :: "int \<Rightarrow> ('a \<Rightarrow> outcome) \<Rightarrow> event list \<Rightarrow> 'a run \<Rightarrow> 'a run option" where
  "exec concurrency processItem [] s = Some s"
| "exec concurrency processItem (ev # evs) s =
     (case step concurrency processItem ev s of
        None \<Rightarrow> None
      | Some s' \<Rightarrow> exec concurrency processItem evs s')"

section \<open>The session registry and the endpoints\<close>

text \<open>
  \<^verbatim>\<open>sessions\<close> is a \<^verbatim>\<open>Set\<close> of objects: membership is by object identity and iteration
  is in insertion order. The model keeps the objects in insertion order, each with the
  identity it got when \<^verbatim>\<open>POST\<close> created it. The identifier \<^verbatim>\<open>uuidv4()\<close> returns and
  the parsed request body are arguments of \<open>POST\<close>.
\<close>

record session =
  sessionId :: string
  body :: "string list"

record registry =
  sessions :: "(nat \<times> session) list"
  fresh :: nat

definition POST :: "string \<Rightarrow> string list \<Rightarrow> registry \<Rightarrow> string \<times> registry" where
  "POST uuid items reg =
     (uuid,
      reg\<lparr>sessions := sessions reg @ [(fresh reg, \<lparr>sessionId = uuid, body = items\<rparr>)],
          fresh := fresh reg + 1\<rparr>)"

text \<open>The transform of the endpoint (lines 83 to 87), without its one second of delay.\<close>

definition processItem :: "string \<Rightarrow> outcome" where
  "processItem item = Resolves (Some (''data: '' @ item @ [CHR 0x0A]))"

datatype http_error = HttpError nat string

text \<open>
  \<^verbatim>\<open>GET\<close> (lines 96 to 125). The response keeps the session object its closures
  captured and the run that \<^verbatim>\<open>start\<close> began on the new stream's controller, with the
  default concurrency. The registry is returned as \<^verbatim>\<open>GET\<close> leaves it. \<open>cancel\<close> is the
  stream's \<^verbatim>\<open>cancel\<close> callback (lines 113 to 115).
\<close>

record response =
  captured :: nat
  stream :: "string run"

definition GET :: "string option \<Rightarrow> registry \<Rightarrow> (http_error + response) \<times> registry" where
  "GET param reg =
     (case find (\<lambda>(ref, s). Some (sessionId s) = param) (sessions reg) of
        None \<Rightarrow> (Inl (HttpError 404 ''Session not found''), reg)
      | Some (ref, s) \<Rightarrow>
          (Inr \<lparr>captured = ref,
                stream = processConcurrently (body s) processItem new_controller 5\<rparr>,
           reg))"

definition cancel :: "response \<Rightarrow> registry \<Rightarrow> registry" where
  "cancel r reg = reg\<lparr>sessions := filter (\<lambda>(ref, s). ref \<noteq> captured r) (sessions reg)\<rparr>"

section \<open>The client subscriber\<close>

text \<open>
  \<^verbatim>\<open>streamData\<close>'s message handler (lines 98 to 101 of the client). A parsed record
  is any record with a \<open>key\<close> field (\<^verbatim>\<open>T & { key: string }\<close>); the parser is the
  caller's and may throw. The store holds a \<^verbatim>\<open>Map\<close> from keys to records. The handler
  returns what it threw, if anything, and the store.
\<close>

record keyed =
  key :: string

type_synonym 'r collection = "string \<rightharpoonup> 'r keyed_scheme"

definition update :: "('s \<Rightarrow> 's) \<Rightarrow> 's \<Rightarrow> 's" where
  "update fn currentData = fn currentData"

definition onmessage ::
  "(string \<Rightarrow> 'e + 'r keyed_scheme) \<Rightarrow> string \<Rightarrow> 'r collection \<Rightarrow> 'e option \<times> 'r collection" where
  "onmessage parseData data store =
     (case parseData data of
        Inl e \<Rightarrow> (Some e, store)
      | Inr parsedData \<Rightarrow>
          (None, update (\<lambda>currentData. currentData(key parsedData \<mapsto> parsedData)) store))"

text \<open>The messages of a connection, handled one after the other.\<close>

fun receive ::
  "(string \<Rightarrow> 'e + 'r keyed_scheme) \<Rightarrow> string list \<Rightarrow> 'r collection \<Rightarrow> 'r collection" where
  "receive parseData [] store = store"
| "receive parseData (data # rest) store =
     receive parseData rest (snd (onmessage parseData data store))"

text \<open>A record with one more field, for the messages of the client scenario.\<close>

record message = keyed +
  v :: int

section \<open>Properties of a run used in the statements below\<close>

text \<open>
  \<open>consistent\<close> collects what every state of a run satisfies; \<open>drained\<close> says that a
  run with nothing pending has finished; \<open>written\<close> is what a settled call puts on a
  readable channel, \<open>emitted\<close> the same for the call of a transform on an item;
  \<open>payload\<close> drops the heartbeats from a channel.
\<close>

definition consistent :: "int \<Rightarrow> 'a list \<Rightarrow> 'a run \<Rightarrow> bool" where
  "consistent concurrency items s \<longleftrightarrow>
     invoked s @ queue s = items \<and>
     activePromises s = int (length (pending s)) \<and>
     activePromises s \<le> max concurrency 0 \<and>
     (heartbeat s = Cleared \<longrightarrow> queue s = [] \<and> pending s = []) \<and>
     (heartbeat s = Running \<longrightarrow> EndOfStream \<notin> set (chunks (controller s))) \<and>
     (promise s = Resolved \<longrightarrow> EndOfStream \<in> set (chunks (controller s))) \<and>
     Heartbeat \<notin> set (dropWhile (\<lambda>c. c \<noteq> EndOfStream) (chunks (controller s)))"

definition drained :: "'a run \<Rightarrow> bool" where
  "drained s \<longleftrightarrow>
     (pending s = [] \<longrightarrow>
        queue s = [] \<and> heartbeat s = Cleared \<and>
        (closed (controller s) \<or> EndOfStream \<in> set (chunks (controller s))))"

definition written :: "outcome \<Rightarrow> chunk list" where
  "written settled =
     (case settled of
        Resolves (Some str) \<Rightarrow> if str \<noteq> [] then [ItemResult str, Separator] else []
      | Resolves None \<Rightarrow> []
      | Rejects e \<Rightarrow> [])"

definition emitted :: "('a \<Rightarrow> outcome) \<Rightarrow> 'a \<Rightarrow> chunk list" where
  "emitted transform item = written (transform item)"

definition payload :: "chunk list \<Rightarrow> chunk list" where
  "payload cs = filter (\<lambda>c. c \<noteq> Heartbeat) cs"

text \<open>The events that settle a call of the transform.\<close>

fun is_settle :: "event \<Rightarrow> bool" where
  "is_settle (Settle i) = True"
| "is_settle Tick = False"
| "is_settle Disconnect = False"

text \<open>
  \<open>served\<close> describes the channel of a run that keeps at most one call pending and whose
  stream stays readable: apart from heartbeats it holds what the settled calls emitted,
  in the order of the calls, and the terminal chunk once the timer is cleared.
\<close>

definition served :: "('a \<Rightarrow> outcome) \<Rightarrow> 'a run \<Rightarrow> bool" where
  "served transform s \<longleftrightarrow>
     \<not> closed (controller s) \<and>
     (pending s = [] \<or>
      (invoked s \<noteq> [] \<and> heartbeat s = Running \<and>
       pending s = [(last (invoked s), transform (last (invoked s)))])) \<and>
     payload (chunks (controller s)) =
       concat (map (emitted transform) (if pending s = [] then invoked s else butlast (invoked s))) @
       (if heartbeat s = Cleared then [EndOfStream] else [])"

text \<open>
  \<open>closing\<close>: the channel holds at most one terminal chunk and, if it holds one, nothing
  was written after it.
\<close>

definition closing :: "'a run \<Rightarrow> bool" where
  "closing s \<longleftrightarrow>
     count_list (chunks (controller s)) EndOfStream \<le> 1 \<and>
     (EndOfStream \<in> set (chunks (controller s)) \<longrightarrow>
        last (chunks (controller s)) = EndOfStream)"

section \<open>Invariants of a run\<close>

lemma consistent_init:
  "consistent K items \<lparr>queue = items, activePromises = 0, heartbeat = Running, promise = Pending,
        controller = new_controller, pending = [], invoked = [], unhandled = [], clears = 0\<rparr>"
  by (simp add: consistent_def new_controller_def)

lemma dropWhile_append_quiet:
  "Heartbeat \<notin> set (dropWhile (\<lambda>c. c \<noteq> EndOfStream) cs) \<Longrightarrow> Heartbeat \<notin> set ds \<Longrightarrow>
   Heartbeat \<notin> set (dropWhile (\<lambda>c. c \<noteq> EndOfStream) (cs @ ds))"
  by (induction cs) (auto dest: set_dropWhileD)

lemma dropWhile_snoc_absent:
  "EndOfStream \<notin> set cs \<Longrightarrow> c \<noteq> EndOfStream \<Longrightarrow> dropWhile (\<lambda>c. c \<noteq> EndOfStream) (cs @ [c]) = []"
  by (induction cs) auto

lemma consistent_processNext:
  "consistent K items s \<Longrightarrow> consistent K items (processNext K f s)"
  unfolding consistent_def processNext_def
  by (auto simp: enqueue_def resolve_def Let_def dropWhile_append_quiet split: list.splits)

lemma drained_processNext:
  "consistent K items s \<Longrightarrow> 0 < K \<Longrightarrow> drained (processNext K f s)"
  unfolding consistent_def processNext_def drained_def
  by (auto simp: enqueue_def resolve_def Let_def split: list.splits)

lemma consistent_launch:
  "consistent K items s \<Longrightarrow> consistent K items (launch i K f s)"
proof (induction i K f s rule: launch.induct)
  case (1 i K f s)
  show ?case
  proof (cases "i < K")
    case True
    then show ?thesis
      using "1.IH" [OF True] "1.prems" by (simp add: launch.simps [of i] consistent_processNext)
  next
    case False
    then show ?thesis using "1.prems" by (simp add: launch.simps [of i])
  qed
qed

lemma drained_launch:
  "consistent K items s \<Longrightarrow> i < K \<Longrightarrow> 0 < K \<Longrightarrow> drained (launch i K f s)"
proof (induction i K f s rule: launch.induct)
  case (1 i K f s)
  show ?case
  proof (cases "i + 1 < K")
    case True
    then show ?thesis
      using "1.IH" "1.prems" by (simp add: launch.simps [of i] consistent_processNext)
  next
    case False
    then show ?thesis using "1.prems"
      by (simp add: launch.simps [of i] launch.simps [of "i + 1"] drained_processNext)
  qed
qed


lemma consistent_settle_call:
  "consistent K items s \<Longrightarrow> i < length (pending s) \<Longrightarrow> consistent K items (settle_call i s)"
  unfolding consistent_def settle_call_def write_result_def
  by (auto simp: enqueue_def reject_def Let_def dropWhile_append_quiet
           split: outcome.splits option.splits)

lemma consistent_beat:
  "consistent K items s \<Longrightarrow> heartbeat s = Running \<Longrightarrow> consistent K items (beat s)"
  unfolding consistent_def beat_def
  by (auto simp: enqueue_def dropWhile_snoc_absent)

lemma consistent_step:
  "consistent K items s \<Longrightarrow> step K f ev s = Some s' \<Longrightarrow> consistent K items s'"
proof (cases ev)
  case (Settle i)
  assume "consistent K items s" "step K f ev s = Some s'"
  with Settle show ?thesis
    by (auto simp: resume_def consistent_processNext consistent_settle_call split: if_splits)
next
  case Tick
  assume "consistent K items s" "step K f ev s = Some s'"
  with Tick show ?thesis
    by (auto simp: consistent_beat split: if_splits)
next
  case Disconnect
  assume "consistent K items s" "step K f ev s = Some s'"
  with Disconnect show ?thesis
    by (auto simp: consistent_def close_def)
qed

lemma consistent_exec:
  "consistent K items s \<Longrightarrow> exec K f evs s = Some s' \<Longrightarrow> consistent K items s'"
proof (induction evs arbitrary: s)
  case Nil
  then show ?case by simp
next
  case (Cons ev evs)
  then show ?case
    by (auto split: option.splits dest: consistent_step)
qed

lemma drained_step:
  "consistent K items s \<Longrightarrow> drained s \<Longrightarrow> 0 < K \<Longrightarrow> step K f ev s = Some s' \<Longrightarrow> drained s'"
proof (cases ev)
  case (Settle i)
  assume "consistent K items s" "0 < K" "step K f ev s = Some s'"
  with Settle show ?thesis
    by (auto simp: resume_def split: if_splits
             intro: drained_processNext consistent_settle_call)
next
  case Tick
  assume "drained s" "step K f ev s = Some s'"
  with Tick show ?thesis
    by (auto simp: drained_def beat_def enqueue_def split: if_splits)
next
  case Disconnect
  assume "drained s" "step K f ev s = Some s'"
  with Disconnect show ?thesis
    by (auto simp: drained_def close_def)
qed

lemma drained_exec:
  "consistent K items s \<Longrightarrow> drained s \<Longrightarrow> 0 < K \<Longrightarrow> exec K f evs s = Some s' \<Longrightarrow> drained s'"
proof (induction evs arbitrary: s)
  case Nil
  then show ?case by simp
next
  case (Cons ev evs)
  from Cons.prems obtain s1 where s1: "step K f ev s = Some s1" "exec K f evs s1 = Some s'"
    by (auto split: option.splits)
  have "consistent K items s1" using Cons.prems(1) s1(1) by (rule consistent_step)
  moreover have "drained s1" using Cons.prems(1,2,3) s1(1) by (rule drained_step)
  ultimately show ?case using Cons.IH Cons.prems(3) s1(2) by blast
qed

lemma consistent_run:
  "exec K f evs (processConcurrently items f new_controller K) = Some s \<Longrightarrow> consistent K items s"
  unfolding processConcurrently_def
  by (rule consistent_exec [OF consistent_launch [OF consistent_init]])

lemma drained_run:
  "0 < K \<Longrightarrow> exec K f evs (processConcurrently items f new_controller K) = Some s \<Longrightarrow> drained s"
  unfolding processConcurrently_def
  by (rule drained_exec [OF consistent_launch [OF consistent_init] drained_launch [OF consistent_init]])


lemma count_processNext:
  "length (invoked (processNext K f s)) + length (pending s) =
   length (invoked s) + length (pending (processNext K f s))"
  unfolding processNext_def
  by (auto simp: enqueue_def resolve_def Let_def split: list.splits)

lemma count_settle_call:
  "i < length (pending s) \<Longrightarrow>
   invoked (settle_call i s) = invoked s \<and>
   Suc (length (pending (settle_call i s))) = length (pending s)"
  unfolding settle_call_def write_result_def
  by (auto simp: enqueue_def reject_def Let_def split: outcome.splits option.splits)

lemma count_launch:
  "length (invoked (launch i K f s)) + length (pending s) =
   length (invoked s) + length (pending (launch i K f s))"
proof (induction i K f s rule: launch.induct)
  case (1 i K f s)
  show ?case
  proof (cases "i < K")
    case True
    then show ?thesis
      using "1.IH" [OF True] count_processNext [of K f s] by (simp add: launch.simps [of i])
  next
    case False
    then show ?thesis by (simp add: launch.simps [of i])
  qed
qed

lemma count_step:
  "step K f ev s = Some s' \<Longrightarrow>
   length (invoked s') + length (pending s) =
   length (invoked s) + length (pending s') + (if is_settle ev then 1 else 0)"
proof (cases ev)
  case (Settle i)
  assume "step K f ev s = Some s'"
  with Settle have i: "i < length (pending s)" and s': "s' = processNext K f (settle_call i s)"
    by (auto simp: resume_def split: if_splits)
  show ?thesis
    using count_settle_call [OF i] count_processNext [of K f "settle_call i s"] Settle s'
    by simp
next
  case Tick
  assume "step K f ev s = Some s'"
  with Tick show ?thesis
    by (auto simp: beat_def enqueue_def split: if_splits)
next
  case Disconnect
  assume "step K f ev s = Some s'"
  with Disconnect show ?thesis by auto
qed

lemma count_exec:
  "exec K f evs s = Some s' \<Longrightarrow>
   length (invoked s') + length (pending s) =
   length (invoked s) + length (pending s') + length (filter is_settle evs)"
proof (induction evs arbitrary: s)
  case Nil
  then show ?case by simp
next
  case (Cons ev evs)
  from Cons.prems obtain s1 where s1: "step K f ev s = Some s1" "exec K f evs s1 = Some s'"
    by (auto split: option.splits)
  show ?case
    using count_step [OF s1(1)] Cons.IH [OF s1(2)] by (simp split: if_splits)
qed

lemma count_run:
  assumes "exec K f evs (processConcurrently items f ctl K) = Some s"
  shows "length (invoked s) = length (pending s) + length (filter is_settle evs)"
proof -
  let ?s0 = "\<lparr>queue = items, activePromises = 0, heartbeat = Running, promise = Pending,
        controller = ctl, pending = [], invoked = [], unhandled = [], clears = 0\<rparr>"
  have "length (invoked (launch 0 K f ?s0)) = length (pending (launch 0 K f ?s0))"
    using count_launch [of 0 K f ?s0] by simp
  with count_exec [OF assms [unfolded processConcurrently_def]] show ?thesis by simp
qed

section \<open>Each item is dequeued once, at most \<open>concurrency\<close> calls are pending\<close>

text \<open>
  C1. For a positive concurrency \<open>K\<close> and any state \<open>s\<close> a run of \<^verbatim>\<open>processConcurrently\<close>
  on \<open>items\<close> reaches: the calls of the transform made so far, followed by the queue,
  are the input list, so every position of the input is dequeued once, in order, and
  never twice; \<open>activePromises\<close> counts the pending calls and is at most \<open>K\<close>; every call
  made is either pending or was settled by one event; and once no call is pending the
  transform has been called on exactly the input items, after as many settling events
  as there are items. The states meant are those between two events; inside one
  continuation the bound holds as well, since \<open>consistent\<close> is kept by \<open>settle_call\<close> and
  by \<open>processNext\<close> separately.
\<close>

theorem each_item_once_bounded:
  assumes "0 < K" and "exec K f evs (processConcurrently items f new_controller K) = Some s"
  shows "invoked s @ queue s = items \<and>
         activePromises s = int (length (pending s)) \<and>
         activePromises s \<le> K \<and>
         length (invoked s) = length (pending s) + length (filter is_settle evs) \<and>
         (pending s = [] \<longrightarrow> invoked s = items \<and> length (filter is_settle evs) = length items)"
proof -
  have c: "consistent K items s" using assms(2) by (rule consistent_run)
  have d: "drained s" using assms by (rule drained_run)
  have n: "length (invoked s) = length (pending s) + length (filter is_settle evs)"
    using assms(2) by (rule count_run)
  from c have a: "invoked s @ queue s = items" by (simp add: consistent_def)
  from c have b: "activePromises s = int (length (pending s))" by (simp add: consistent_def)
  from c assms(1) have k: "activePromises s \<le> K" by (simp add: consistent_def)
  have e: "pending s = [] \<longrightarrow> invoked s = items \<and> length (filter is_settle evs) = length items"
    using a d n by (auto simp: drained_def)
  from a b k n e show ?thesis by blast
qed

text \<open>The equations that evaluate a run on concrete input.\<close>

lemmas run_defs = processConcurrently_def launch.simps processNext_def resume_def settle_call_def
  write_result_def enqueue_def resolve_def reject_def beat_def close_def new_controller_def
  processItem_def Let_def

theorem each_item_once_bounded_witness:
  "(0::int) < 2 \<and>
   exec 2 processItem [Settle 1, Tick, Settle 0, Settle 0]
     (processConcurrently [''a'', ''b'', ''c''] processItem new_controller 2) =
   Some \<lparr>queue = [], activePromises = 0, heartbeat = Cleared, promise = Resolved,
        controller = \<lparr>chunks = [ItemResult (''data: b'' @ [CHR 0x0A]), Separator, Heartbeat,
          ItemResult (''data: a'' @ [CHR 0x0A]), Separator,
          ItemResult (''data: c'' @ [CHR 0x0A]), Separator, EndOfStream], closed = False\<rparr>,
        pending = [], invoked = [''a'', ''b'', ''c''], unhandled = [], clears = 1\<rparr> \<and>
   length (filter is_settle [Settle 1, Tick, Settle 0, Settle 0]) = length [''a'', ''b'', ''c'']"
proof -
  have k: "(0::int) < 2" by simp
  have h: "exec 2 processItem [Settle 1, Tick, Settle 0, Settle 0]
     (processConcurrently [''a'', ''b'', ''c''] processItem new_controller 2) =
   Some \<lparr>queue = [], activePromises = 0, heartbeat = Cleared, promise = Resolved,
        controller = \<lparr>chunks = [ItemResult (''data: b'' @ [CHR 0x0A]), Separator, Heartbeat,
          ItemResult (''data: a'' @ [CHR 0x0A]), Separator,
          ItemResult (''data: c'' @ [CHR 0x0A]), Separator, EndOfStream], closed = False\<rparr>,
        pending = [], invoked = [''a'', ''b'', ''c''], unhandled = [], clears = 1\<rparr>"
    by (simp add: run_defs)
  from each_item_once_bounded [OF k h] k h show ?thesis by simp
qed

section \<open>Dequeue order and the serial scenario\<close>

lemma payload_append: "payload (cs @ ds) = payload cs @ payload ds"
  by (simp add: payload_def)

lemma payload_written: "payload (written r) = written r"
  by (simp add: payload_def written_def split: outcome.splits option.splits)

lemma served_processNext:
  "served f s \<Longrightarrow> pending s = [] \<Longrightarrow> heartbeat s = Running \<Longrightarrow> served f (processNext K f s)"
  unfolding served_def processNext_def
  by (auto simp: enqueue_def resolve_def Let_def payload_def split: list.splits)

lemma settle_call_open:
  "\<not> closed (controller s) \<Longrightarrow>
   settle_call i s =
     s\<lparr>pending := take i (pending s) @ drop (Suc i) (pending s),
       controller := (controller s)\<lparr>chunks := chunks (controller s) @ written (snd (pending s ! i))\<rparr>,
       promise := (case snd (pending s ! i) of Rejects e \<Rightarrow> (if promise s = Pending then Rejected e else promise s) | Resolves r \<Rightarrow> promise s),
       activePromises := activePromises s - 1\<rparr>"
  unfolding settle_call_def write_result_def written_def
  by (auto simp: enqueue_def reject_def Let_def split: outcome.splits option.splits)

lemma concat_map_butlast_last:
  "xs \<noteq> [] \<Longrightarrow> concat (map g xs) = concat (map g (butlast xs)) @ g (last xs)"
  by (induction xs) auto

lemma served_settle_call:
  assumes "served f s" and "i < length (pending s)"
  shows "served f (settle_call i s) \<and> pending (settle_call i s) = [] \<and>
         heartbeat (settle_call i s) = Running"
proof -
  from assms have p: "pending s = [(last (invoked s), f (last (invoked s)))]" and ne: "invoked s \<noteq> []"
    and r: "heartbeat s = Running" and o: "\<not> closed (controller s)"
    and c: "payload (chunks (controller s)) = concat (map (emitted f) (butlast (invoked s)))"
    by (auto simp: served_def)
  from p assms(2) have i: "i = 0" by simp
  have "concat (map (emitted f) (invoked s)) =
        concat (map (emitted f) (butlast (invoked s))) @ emitted f (last (invoked s))"
    using ne by (rule concat_map_butlast_last)
  then show ?thesis
    using p r o c i
    by (simp add: settle_call_open served_def payload_append payload_written emitted_def)
qed

lemma served_step:
  assumes "served f s" and "ev \<noteq> Disconnect" and "step K f ev s = Some s'"
  shows "served f s'"
proof (cases ev)
  case (Settle i)
  with assms(3) have i: "i < length (pending s)" and s': "s' = processNext K f (settle_call i s)"
    by (auto simp: resume_def split: if_splits)
  from served_settle_call [OF assms(1) i] show ?thesis
    unfolding s' by (auto intro: served_processNext)
next
  case Tick
  with assms(1,3) show ?thesis
    by (auto simp: served_def beat_def enqueue_def payload_def split: if_splits)
next
  case Disconnect
  with assms(2) show ?thesis by simp
qed

lemma served_exec:
  "served f s \<Longrightarrow> Disconnect \<notin> set evs \<Longrightarrow> exec K f evs s = Some s' \<Longrightarrow> served f s'"
proof (induction evs arbitrary: s)
  case Nil
  then show ?case by simp
next
  case (Cons ev evs)
  from Cons.prems obtain s1 where s1: "step K f ev s = Some s1" "exec K f evs s1 = Some s'"
    by (auto split: option.splits)
  from Cons.prems(2) have "ev \<noteq> Disconnect" by auto
  with Cons.prems(1) s1(1) have "served f s1" by (auto intro: served_step)
  with Cons.IH s1(2) Cons.prems(2) show ?case by auto
qed

lemma launch_one:
  "launch 0 1 f s = processNext 1 f s"
  by (simp add: launch.simps [of 0] launch.simps [of 1])

lemma served_run:
  assumes "exec 1 f evs (processConcurrently items f new_controller 1) = Some s"
    and "Disconnect \<notin> set evs"
  shows "served f s"
proof -
  let ?s0 = "\<lparr>queue = items, activePromises = 0, heartbeat = Running, promise = Pending,
        controller = new_controller, pending = [], invoked = [], unhandled = [], clears = 0\<rparr>"
  have "served f ?s0" by (simp add: served_def new_controller_def payload_def)
  then have "served f (processNext 1 f ?s0)" by (rule served_processNext) simp_all
  with assms show ?thesis
    unfolding processConcurrently_def launch_one by (auto intro: served_exec)
qed

lemma serial_sink:
  assumes "exec 1 f evs (processConcurrently items f new_controller 1) = Some s"
    and "Disconnect \<notin> set evs" and "pending s = []"
  shows "payload (chunks (controller s)) = concat (map (emitted f) items) @ [EndOfStream]"
proof -
  have "drained s" by (rule drained_run [OF _ assms(1)]) simp
  with assms(3) have q: "queue s = []" "heartbeat s = Cleared" by (auto simp: drained_def)
  have "consistent 1 items s" using assms(1) by (rule consistent_run)
  with q have "invoked s = items" by (simp add: consistent_def)
  with served_run [OF assms(1,2)] assms(3) q show ?thesis by (simp add: served_def)
qed

text \<open>
  C7. In every state of a run the calls made so far followed by the queue are the input
  list: items leave the queue in input order. With concurrency 1, a stream that stays
  readable and every call settled, the channel holds, heartbeats apart, what each item
  emitted in input order and then one terminal chunk. For the items a, b, c and the
  echoing transform these are the three data lines in the order a, b, c, each followed
  by its separator, and one end-of-stream event; the transform was called on a, b, c.
\<close>

theorem fifo_order:
  "(exec K f evs (processConcurrently items f new_controller K) = Some s \<longrightarrow>
      invoked s @ queue s = items \<and>
      (K = 1 \<and> Disconnect \<notin> set evs \<and> pending s = [] \<longrightarrow>
         payload (chunks (controller s)) = concat (map (emitted f) items) @ [EndOfStream])) \<and>
   (exec 1 processItem evs' (processConcurrently [''a'', ''b'', ''c''] processItem new_controller 1) = Some s' \<and>
    Disconnect \<notin> set evs' \<and> pending s' = [] \<longrightarrow>
      invoked s' = [''a'', ''b'', ''c''] \<and>
      map wire (payload (chunks (controller s'))) =
        [''data: a'' @ [CHR 0x0A], [CHR 0x0A], ''data: b'' @ [CHR 0x0A], [CHR 0x0A],
         ''data: c'' @ [CHR 0x0A], [CHR 0x0A], ''event: end-of-stream'' @ [CHR 0x0A, CHR 0x0A]])"
proof (intro conjI impI)
  assume h: "exec K f evs (processConcurrently items f new_controller K) = Some s"
  then have "consistent K items s" by (rule consistent_run)
  then show "invoked s @ queue s = items" by (simp add: consistent_def)
next
  assume h: "exec K f evs (processConcurrently items f new_controller K) = Some s"
    and k: "K = 1 \<and> Disconnect \<notin> set evs \<and> pending s = []"
  from h k have e: "exec 1 f evs (processConcurrently items f new_controller 1) = Some s"
    and d: "Disconnect \<notin> set evs" and p: "pending s = []"
    by simp_all
  show "payload (chunks (controller s)) = concat (map (emitted f) items) @ [EndOfStream]"
    by (rule serial_sink [OF e d p])
next
  assume h: "exec 1 processItem evs' (processConcurrently [''a'', ''b'', ''c''] processItem new_controller 1) = Some s' \<and>
    Disconnect \<notin> set evs' \<and> pending s' = []"
  then have e: "exec 1 processItem evs' (processConcurrently [''a'', ''b'', ''c''] processItem new_controller 1) = Some s'"
    by simp
  then have "consistent 1 [''a'', ''b'', ''c''] s'" by (rule consistent_run)
  moreover have "drained s'" by (rule drained_run [OF _ e]) simp
  ultimately show "invoked s' = [''a'', ''b'', ''c'']" using h by (auto simp: consistent_def drained_def)
next
  assume h: "exec 1 processItem evs' (processConcurrently [''a'', ''b'', ''c''] processItem new_controller 1) = Some s' \<and>
    Disconnect \<notin> set evs' \<and> pending s' = []"
  then have e: "exec 1 processItem evs' (processConcurrently [''a'', ''b'', ''c''] processItem new_controller 1) = Some s'"
    and d: "Disconnect \<notin> set evs'" and p: "pending s' = []"
    by simp_all
  have "payload (chunks (controller s')) = concat (map (emitted processItem) [''a'', ''b'', ''c'']) @ [EndOfStream]"
    by (rule serial_sink [OF e d p])
  then show "map wire (payload (chunks (controller s'))) =
        [''data: a'' @ [CHR 0x0A], [CHR 0x0A], ''data: b'' @ [CHR 0x0A], [CHR 0x0A],
         ''data: c'' @ [CHR 0x0A], [CHR 0x0A], ''event: end-of-stream'' @ [CHR 0x0A, CHR 0x0A]]"
    by (simp add: emitted_def written_def processItem_def wire_def)
qed

theorem fifo_order_witness:
  "exec 1 processItem [Settle 0, Tick, Settle 0, Settle 0]
     (processConcurrently [''a'', ''b'', ''c''] processItem new_controller 1) =
   Some \<lparr>queue = [], activePromises = 0, heartbeat = Cleared, promise = Resolved,
        controller = \<lparr>chunks = [ItemResult (''data: a'' @ [CHR 0x0A]), Separator, Heartbeat,
          ItemResult (''data: b'' @ [CHR 0x0A]), Separator,
          ItemResult (''data: c'' @ [CHR 0x0A]), Separator, EndOfStream], closed = False\<rparr>,
        pending = [], invoked = [''a'', ''b'', ''c''], unhandled = [], clears = 1\<rparr> \<and>
   Disconnect \<notin> set [Settle 0, Tick, Settle 0, Settle 0] \<and>
   map wire (payload [ItemResult (''data: a'' @ [CHR 0x0A]), Separator, Heartbeat,
          ItemResult (''data: b'' @ [CHR 0x0A]), Separator,
          ItemResult (''data: c'' @ [CHR 0x0A]), Separator, EndOfStream]) =
     [''data: a'' @ [CHR 0x0A], [CHR 0x0A], ''data: b'' @ [CHR 0x0A], [CHR 0x0A],
      ''data: c'' @ [CHR 0x0A], [CHR 0x0A], ''event: end-of-stream'' @ [CHR 0x0A, CHR 0x0A]]"
proof -
  let ?evs = "[Settle 0, Tick, Settle 0, Settle 0]"
  let ?s = "\<lparr>queue = [], activePromises = 0, heartbeat = Cleared, promise = Resolved,
        controller = \<lparr>chunks = [ItemResult (''data: a'' @ [CHR 0x0A]), Separator, Heartbeat,
          ItemResult (''data: b'' @ [CHR 0x0A]), Separator,
          ItemResult (''data: c'' @ [CHR 0x0A]), Separator, EndOfStream], closed = False\<rparr>,
        pending = [], invoked = [''a'', ''b'', ''c''], unhandled = [], clears = 1\<rparr>"
  have h: "exec 1 processItem ?evs
     (processConcurrently [''a'', ''b'', ''c''] processItem new_controller 1) = Some ?s"
    by (simp add: run_defs)
  have d: "Disconnect \<notin> set ?evs" by simp
  have p: "pending ?s = []" by simp
  from fifo_order [of 1 processItem ?evs "[''a'', ''b'', ''c'']" ?s ?evs ?s] h d p
  have "map wire (payload (chunks (controller ?s))) =
     [''data: a'' @ [CHR 0x0A], [CHR 0x0A], ''data: b'' @ [CHR 0x0A], [CHR 0x0A],
      ''data: c'' @ [CHR 0x0A], [CHR 0x0A], ''event: end-of-stream'' @ [CHR 0x0A, CHR 0x0A]]"
    by blast
  then have "map wire (payload [ItemResult (''data: a'' @ [CHR 0x0A]), Separator, Heartbeat,
          ItemResult (''data: b'' @ [CHR 0x0A]), Separator,
          ItemResult (''data: c'' @ [CHR 0x0A]), Separator, EndOfStream]) =
     [''data: a'' @ [CHR 0x0A], [CHR 0x0A], ''data: b'' @ [CHR 0x0A], [CHR 0x0A],
      ''data: c'' @ [CHR 0x0A], [CHR 0x0A], ''event: end-of-stream'' @ [CHR 0x0A, CHR 0x0A]]"
    by simp
  with h d show ?thesis by blast
qed

section \<open>The heartbeat stops with the run\<close>

lemma cleared_step:
  assumes "consistent K items s" and "heartbeat s = Cleared" and "step K f ev s = Some s'"
  shows "ev = Disconnect \<and> heartbeat s' = Cleared \<and>
         chunks (controller s') = chunks (controller s)"
proof (cases ev)
  case (Settle i)
  from assms(1,2) have "pending s = []" by (simp add: consistent_def)
  with Settle assms(3) show ?thesis by simp
next
  case Tick
  with assms(2,3) show ?thesis by simp
next
  case Disconnect
  with assms(2,3) show ?thesis by (auto simp: close_def)
qed

lemma cleared_exec:
  "consistent K items s \<Longrightarrow> heartbeat s = Cleared \<Longrightarrow> exec K f evs s = Some s' \<Longrightarrow>
   set evs \<subseteq> {Disconnect} \<and> heartbeat s' = Cleared \<and>
   chunks (controller s') = chunks (controller s)"
proof (induction evs arbitrary: s)
  case Nil
  then show ?case by simp
next
  case (Cons ev evs)
  from Cons.prems obtain s1 where s1: "step K f ev s = Some s1" "exec K f evs s1 = Some s'"
    by (auto split: option.splits)
  have c1: "consistent K items s1" using Cons.prems(1) s1(1) by (rule consistent_step)
  from cleared_step [OF Cons.prems(1,2) s1(1)]
  have ev: "ev = Disconnect" and h1: "heartbeat s1 = Cleared"
    and ch: "chunks (controller s1) = chunks (controller s)" by simp_all
  from Cons.IH [OF c1 h1 s1(2)] ev ch show ?case by simp
qed

text \<open>
  What holds of the heartbeat in every state of a run, whatever the items: no chunk after
  the first terminal chunk is a heartbeat; while the timer runs no terminal chunk has
  been written; the timer is cleared only with the queue empty and no call pending, and
  with a positive concurrency it is cleared as soon as that holds; once cleared it stays
  cleared, it never fires again, and nothing more is written to the channel.
\<close>

theorem heartbeat_only_while_active:
  assumes "exec K f evs (processConcurrently items f new_controller K) = Some s"
  shows "Heartbeat \<notin> set (dropWhile (\<lambda>c. c \<noteq> EndOfStream) (chunks (controller s))) \<and>
         (heartbeat s = Running \<longrightarrow> EndOfStream \<notin> set (chunks (controller s))) \<and>
         (heartbeat s = Cleared \<longrightarrow> queue s = [] \<and> activePromises s = 0 \<and> pending s = []) \<and>
         (0 < K \<and> queue s = [] \<and> activePromises s = 0 \<longrightarrow> heartbeat s = Cleared) \<and>
         (heartbeat s = Cleared \<longrightarrow> step K f Tick s = None) \<and>
         (heartbeat s = Cleared \<and> exec K f evs' s = Some s' \<longrightarrow>
            Tick \<notin> set evs' \<and> heartbeat s' = Cleared \<and>
            chunks (controller s') = chunks (controller s))"
proof -
  have c: "consistent K items s" using assms by (rule consistent_run)
  from c have 1: "Heartbeat \<notin> set (dropWhile (\<lambda>c. c \<noteq> EndOfStream) (chunks (controller s)))"
    by (simp add: consistent_def)
  from c have 2: "heartbeat s = Running \<longrightarrow> EndOfStream \<notin> set (chunks (controller s))"
    by (simp add: consistent_def)
  from c have 3: "heartbeat s = Cleared \<longrightarrow> queue s = [] \<and> activePromises s = 0 \<and> pending s = []"
    by (simp add: consistent_def)
  have 4: "0 < K \<and> queue s = [] \<and> activePromises s = 0 \<longrightarrow> heartbeat s = Cleared"
  proof
    assume k: "0 < K \<and> queue s = [] \<and> activePromises s = 0"
    then have "drained s" using assms by (auto intro: drained_run)
    moreover from c k have "pending s = []" by (simp add: consistent_def)
    ultimately show "heartbeat s = Cleared" by (simp add: drained_def)
  qed
  have 5: "heartbeat s = Cleared \<longrightarrow> step K f Tick s = None" by simp
  have 6: "heartbeat s = Cleared \<and> exec K f evs' s = Some s' \<longrightarrow>
            Tick \<notin> set evs' \<and> heartbeat s' = Cleared \<and>
            chunks (controller s') = chunks (controller s)"
    using cleared_exec [OF c, of f evs' s'] by auto
  from 1 2 3 4 5 6 show ?thesis by blast
qed

theorem heartbeat_only_while_active_witness:
  "exec 1 processItem [Tick, Settle 0]
     (processConcurrently [''a'', ''b''] processItem new_controller 1) =
   Some \<lparr>queue = [], activePromises = 1, heartbeat = Running, promise = Pending,
        controller = \<lparr>chunks = [Heartbeat, ItemResult (''data: a'' @ [CHR 0x0A]), Separator],
                      closed = False\<rparr>,
        pending = [(''b'', Resolves (Some (''data: b'' @ [CHR 0x0A])))], invoked = [''a'', ''b''], unhandled = [], clears = 0\<rparr> \<and>
   EndOfStream \<notin> set [Heartbeat, ItemResult (''data: a'' @ [CHR 0x0A]), Separator] \<and>
   exec 1 processItem [Tick, Settle 0, Settle 0]
     (processConcurrently [''a'', ''b''] processItem new_controller 1) =
   Some \<lparr>queue = [], activePromises = 0, heartbeat = Cleared, promise = Resolved,
        controller = \<lparr>chunks = [Heartbeat, ItemResult (''data: a'' @ [CHR 0x0A]), Separator,
                                ItemResult (''data: b'' @ [CHR 0x0A]), Separator, EndOfStream],
                      closed = False\<rparr>,
        pending = [], invoked = [''a'', ''b''], unhandled = [], clears = 1\<rparr> \<and>
   step 1 processItem Tick
     \<lparr>queue = [], activePromises = 0, heartbeat = Cleared, promise = Resolved,
        controller = \<lparr>chunks = [Heartbeat, ItemResult (''data: a'' @ [CHR 0x0A]), Separator,
                                ItemResult (''data: b'' @ [CHR 0x0A]), Separator, EndOfStream],
                      closed = False\<rparr>,
        pending = [], invoked = [''a'', ''b''], unhandled = [], clears = 1\<rparr> = None \<and>
   exec 1 processItem [Disconnect]
     \<lparr>queue = [], activePromises = 0, heartbeat = Cleared, promise = Resolved,
        controller = \<lparr>chunks = [Heartbeat, ItemResult (''data: a'' @ [CHR 0x0A]), Separator,
                                ItemResult (''data: b'' @ [CHR 0x0A]), Separator, EndOfStream],
                      closed = False\<rparr>,
        pending = [], invoked = [''a'', ''b''], unhandled = [], clears = 1\<rparr> =
   Some \<lparr>queue = [], activePromises = 0, heartbeat = Cleared, promise = Resolved,
        controller = \<lparr>chunks = [Heartbeat, ItemResult (''data: a'' @ [CHR 0x0A]), Separator,
                                ItemResult (''data: b'' @ [CHR 0x0A]), Separator, EndOfStream],
                      closed = True\<rparr>,
        pending = [], invoked = [''a'', ''b''], unhandled = [], clears = 1\<rparr> \<and>
   Tick \<notin> set [Disconnect]"
proof -
  let ?mid = "\<lparr>queue = [], activePromises = 1, heartbeat = Running, promise = Pending,
        controller = \<lparr>chunks = [Heartbeat, ItemResult (''data: a'' @ [CHR 0x0A]), Separator],
                      closed = False\<rparr>,
        pending = [(''b'', Resolves (Some (''data: b'' @ [CHR 0x0A])))], invoked = [''a'', ''b''], unhandled = [], clears = 0\<rparr>"
  let ?fin = "\<lparr>queue = [], activePromises = 0, heartbeat = Cleared, promise = Resolved,
        controller = \<lparr>chunks = [Heartbeat, ItemResult (''data: a'' @ [CHR 0x0A]), Separator,
                                ItemResult (''data: b'' @ [CHR 0x0A]), Separator, EndOfStream],
                      closed = False\<rparr>,
        pending = [], invoked = [''a'', ''b''], unhandled = [], clears = 1\<rparr>"
  let ?end = "\<lparr>queue = [], activePromises = 0, heartbeat = Cleared, promise = Resolved,
        controller = \<lparr>chunks = [Heartbeat, ItemResult (''data: a'' @ [CHR 0x0A]), Separator,
                                ItemResult (''data: b'' @ [CHR 0x0A]), Separator, EndOfStream],
                      closed = True\<rparr>,
        pending = [], invoked = [''a'', ''b''], unhandled = [], clears = 1\<rparr>"
  have m: "exec 1 processItem [Tick, Settle 0]
     (processConcurrently [''a'', ''b''] processItem new_controller 1) = Some ?mid"
    by (simp add: run_defs)
  have f: "exec 1 processItem [Tick, Settle 0, Settle 0]
     (processConcurrently [''a'', ''b''] processItem new_controller 1) = Some ?fin"
    by (simp add: run_defs)
  have e: "exec 1 processItem [Disconnect] ?fin = Some ?end"
    by (simp add: close_def)
  have r: "heartbeat ?mid = Running" and c: "heartbeat ?fin = Cleared" by simp_all
  from heartbeat_only_while_active [OF m] r
  have 1: "EndOfStream \<notin> set (chunks (controller ?mid))" by blast
  from heartbeat_only_while_active [OF f, of "[Disconnect]" ?end] c e
  have 2: "step 1 processItem Tick ?fin = None" and 3: "Tick \<notin> set [Disconnect]" by blast+
  from 1 have 1: "EndOfStream \<notin> set [Heartbeat, ItemResult (''data: a'' @ [CHR 0x0A]), Separator]" by simp
  from m 1 f 2 e 3 show ?thesis by blast
qed

section \<open>A rejected call\<close>

lemma rejected_processNext:
  "promise s = Rejected e \<Longrightarrow> promise (processNext K f s) = Rejected e"
  unfolding processNext_def
  by (auto simp: enqueue_def resolve_def Let_def split: list.splits)

lemma rejected_settle_call:
  "promise s = Rejected e \<Longrightarrow> promise (settle_call i s) = Rejected e"
  unfolding settle_call_def write_result_def
  by (auto simp: enqueue_def reject_def Let_def split: outcome.splits option.splits)








section \<open>Siblings of a rejected call\<close>

lemma processNext_dispatch:
  assumes "queue s = item # rest" and "activePromises s < K"
  shows "processNext K f s =
           s\<lparr>queue := rest, activePromises := activePromises s + 1,
             pending := pending s @ [(item, f item)], invoked := invoked s @ [item]\<rparr>"
  using assms unfolding processNext_def by simp

lemma processNext_chunks:
  "\<exists>rest. chunks (controller (processNext K f s)) = chunks (controller s) @ rest"
  unfolding processNext_def
  by (auto simp: enqueue_def resolve_def Let_def split: list.splits)

text \<open>
  C5, as the code has it. In a state of a run whose promise is already rejected, with the
  stream still readable, a pending call that resolves with a non-empty string still has
  its result and the separator written to the channel; the promise stays rejected, and
  the next queued item, if there is one, is dequeued and its call started.
\<close>

theorem sibling_results_still_written:
  assumes "exec K f evs (processConcurrently items f new_controller K) = Some s"
    and "promise s = Rejected e"
    and "i < length (pending s)"
    and "snd (pending s ! i) = Resolves (Some r)"
    and "r \<noteq> []"
    and "\<not> closed (controller s)"
  shows "\<exists>s' rest. step K f (Settle i) s = Some s' \<and>
           chunks (controller s') = chunks (controller s) @ ItemResult r # Separator # rest \<and>
           promise s' = Rejected e \<and>
           (queue s \<noteq> [] \<longrightarrow> invoked s' = invoked s @ [hd (queue s)] \<and> queue s' = tl (queue s))"
proof -
  let ?t = "settle_call i s"
  have c: "consistent K items s" using assms(1) by (rule consistent_run)
  have t: "?t = s\<lparr>pending := take i (pending s) @ drop (Suc i) (pending s),
       controller := (controller s)\<lparr>chunks := chunks (controller s) @ [ItemResult r, Separator]\<rparr>,
       activePromises := activePromises s - 1\<rparr>"
    using assms(2,4,5,6) by (simp add: settle_call_open written_def)
  obtain rest where rest: "chunks (controller (processNext K f ?t)) = chunks (controller ?t) @ rest"
    using processNext_chunks by blast
  have 1: "chunks (controller (processNext K f ?t)) =
             chunks (controller s) @ ItemResult r # Separator # rest"
    using rest t by simp
  have 2: "promise (processNext K f ?t) = Rejected e"
    using assms(2) by (simp add: rejected_processNext rejected_settle_call)
  have 3: "queue s \<noteq> [] \<longrightarrow>
           invoked (processNext K f ?t) = invoked s @ [hd (queue s)] \<and>
           queue (processNext K f ?t) = tl (queue s)"
  proof
    assume "queue s \<noteq> []"
    then obtain item more where q: "queue ?t = item # more" and q': "queue s = item # more"
      using t by (cases "queue s") auto
    from c assms(3) have "activePromises ?t < K"
      using t by (auto simp: consistent_def)
    from processNext_dispatch [OF q this] q' t
    show "invoked (processNext K f ?t) = invoked s @ [hd (queue s)] \<and>
           queue (processNext K f ?t) = tl (queue s)" by simp
  qed
  have "step K f (Settle i) s = Some (processNext K f ?t)"
    using assms(3) by (simp add: resume_def)
  with 1 2 3 show ?thesis by blast
qed

text \<open>
  The claim as stated fails: two items, concurrency 2, the first call rejects and the
  second resolves. After the rejection the channel is still empty; when the second call
  settles its result is written.
\<close>

theorem sibling_result_written_after_rejection:
  "exec 2 (\<lambda>item. if item = ''a'' then Rejects (Failure ''boom'') else processItem item)
     [Settle 0]
     (processConcurrently [''a'', ''b'']
        (\<lambda>item. if item = ''a'' then Rejects (Failure ''boom'') else processItem item)
        new_controller 2) =
   Some \<lparr>queue = [], activePromises = 1, heartbeat = Running,
        promise = Rejected (Failure ''boom''),
        controller = \<lparr>chunks = [], closed = False\<rparr>,
        pending = [(''b'', Resolves (Some (''data: b'' @ [CHR 0x0A])))], invoked = [''a'', ''b''], unhandled = [], clears = 0\<rparr> \<and>
   exec 2 (\<lambda>item. if item = ''a'' then Rejects (Failure ''boom'') else processItem item)
     [Settle 0, Settle 0]
     (processConcurrently [''a'', ''b'']
        (\<lambda>item. if item = ''a'' then Rejects (Failure ''boom'') else processItem item)
        new_controller 2) =
   Some \<lparr>queue = [], activePromises = 0, heartbeat = Cleared,
        promise = Rejected (Failure ''boom''),
        controller = \<lparr>chunks = [ItemResult (''data: b'' @ [CHR 0x0A]), Separator, EndOfStream],
                      closed = False\<rparr>,
        pending = [], invoked = [''a'', ''b''], unhandled = [], clears = 1\<rparr>"
  by (simp add: run_defs)

theorem sibling_results_still_written_witness:
  "exec 2 (\<lambda>item. if item = ''a'' then Rejects (Failure ''boom'') else processItem item)
     [Settle 0]
     (processConcurrently [''a'', ''b'', ''c'', ''d'']
        (\<lambda>item. if item = ''a'' then Rejects (Failure ''boom'') else processItem item)
        new_controller 2) =
   Some \<lparr>queue = [''d''], activePromises = 2, heartbeat = Running,
        promise = Rejected (Failure ''boom''),
        controller = \<lparr>chunks = [], closed = False\<rparr>,
        pending = [(''b'', Resolves (Some (''data: b'' @ [CHR 0x0A]))),
                   (''c'', Resolves (Some (''data: c'' @ [CHR 0x0A])))], invoked = [''a'', ''b'', ''c''], unhandled = [], clears = 0\<rparr> \<and>
   (\<exists>s' rest.
      step 2 (\<lambda>item. if item = ''a'' then Rejects (Failure ''boom'') else processItem item)
        (Settle 0)
        \<lparr>queue = [''d''], activePromises = 2, heartbeat = Running,
         promise = Rejected (Failure ''boom''),
         controller = \<lparr>chunks = [], closed = False\<rparr>,
         pending = [(''b'', Resolves (Some (''data: b'' @ [CHR 0x0A]))),
                   (''c'', Resolves (Some (''data: c'' @ [CHR 0x0A])))], invoked = [''a'', ''b'', ''c''], unhandled = [], clears = 0\<rparr> = Some s' \<and>
      chunks (controller s') = ItemResult (''data: b'' @ [CHR 0x0A]) # Separator # rest \<and>
      promise s' = Rejected (Failure ''boom'') \<and>
      invoked s' = [''a'', ''b'', ''c'', ''d''] \<and> queue s' = [])"
proof -
  let ?f = "\<lambda>item. if item = ''a'' then Rejects (Failure ''boom'') else processItem item"
  let ?s = "\<lparr>queue = [''d''], activePromises = 2, heartbeat = Running,
        promise = Rejected (Failure ''boom''),
        controller = \<lparr>chunks = [], closed = False\<rparr>,
        pending = [(''b'', Resolves (Some (''data: b'' @ [CHR 0x0A]))),
                   (''c'', Resolves (Some (''data: c'' @ [CHR 0x0A])))], invoked = [''a'', ''b'', ''c''], unhandled = [], clears = 0\<rparr>"
  have a: "exec 2 ?f [Settle 0] (processConcurrently [''a'', ''b'', ''c'', ''d''] ?f new_controller 2) = Some ?s"
    by (simp add: run_defs)
  have b: "promise ?s = Rejected (Failure ''boom'')" by simp
  have c: "0 < length (pending ?s)" by simp
  have d: "snd (pending ?s ! 0) = Resolves (Some (''data: b'' @ [CHR 0x0A]))"
    by simp
  have e: "''data: b'' @ [CHR 0x0A] \<noteq> []" by simp
  have g: "\<not> closed (controller ?s)" by simp
  from sibling_results_still_written [OF a b c d e g]
  obtain s' rest where "step 2 ?f (Settle 0) ?s = Some s'"
    and "chunks (controller s') = chunks (controller ?s) @ ItemResult (''data: b'' @ [CHR 0x0A]) # Separator # rest"
    and "promise s' = Rejected (Failure ''boom'')"
    and "queue ?s \<noteq> [] \<longrightarrow> invoked s' = invoked ?s @ [hd (queue ?s)] \<and> queue s' = tl (queue ?s)"
    by blast
  then have "step 2 ?f (Settle 0) ?s = Some s' \<and>
      chunks (controller s') = ItemResult (''data: b'' @ [CHR 0x0A]) # Separator # rest \<and>
      promise s' = Rejected (Failure ''boom'') \<and>
      invoked s' = [''a'', ''b'', ''c'', ''d''] \<and> queue s' = []"
    by simp
  with a show ?thesis by blast
qed

section \<open>The terminal chunk on a non-empty item list\<close>

lemma running_if_pending:
  "consistent K items s \<Longrightarrow> pending s \<noteq> [] \<Longrightarrow> heartbeat s = Running"
  by (cases "heartbeat s") (auto simp: consistent_def)

lemma launch_busy:
  "queue s \<noteq> [] \<or> 0 < activePromises s \<Longrightarrow> 0 \<le> activePromises s \<Longrightarrow>
   heartbeat (launch i K f s) = heartbeat s \<and> controller (launch i K f s) = controller s \<and>
   promise (launch i K f s) = promise s \<and> clears (launch i K f s) = clears s"
proof (induction i K f s rule: launch.induct)
  case (1 i K f s)
  show ?case
  proof (cases "i < K")
    case True
    let ?t = "processNext K f s"
    have t: "queue ?t \<noteq> [] \<or> 0 < activePromises ?t" "0 \<le> activePromises ?t"
      "heartbeat ?t = heartbeat s" "controller ?t = controller s" "promise ?t = promise s"
      "clears ?t = clears s"
      using "1.prems" by (auto simp: processNext_def split: list.splits)
    from "1.IH" [OF True t(1,2)] t(3,4,5,6) True show ?thesis
      by (simp add: launch.simps [of i])
  next
    case False
    then show ?thesis by (simp add: launch.simps [of i])
  qed
qed

lemma closing_processNext:
  "consistent K items s \<Longrightarrow> heartbeat s = Running \<Longrightarrow> closing (processNext K f s)"
  unfolding consistent_def processNext_def closing_def
  by (auto simp: enqueue_def resolve_def Let_def split: list.splits)

lemma closing_settle_call:
  assumes "consistent K items s" and "i < length (pending s)"
  shows "closing (settle_call i s)"
proof -
  from assms have "heartbeat s = Running" by (auto intro: running_if_pending)
  with assms(1) have "EndOfStream \<notin> set (chunks (controller s))" by (simp add: consistent_def)
  then show ?thesis
    unfolding settle_call_def write_result_def closing_def
    by (auto simp: enqueue_def reject_def Let_def split: outcome.splits option.splits)
qed

lemma closing_step:
  assumes "consistent K items s" and "closing s" and "step K f ev s = Some s'"
  shows "closing s'"
proof (cases ev)
  case (Settle i)
  with assms(3) have i: "i < length (pending s)" and s': "s' = processNext K f (settle_call i s)"
    by (auto simp: resume_def split: if_splits)
  from assms(1) i have "heartbeat s = Running" by (auto intro: running_if_pending)
  then have "heartbeat (settle_call i s) = Running"
    unfolding settle_call_def write_result_def
    by (auto simp: enqueue_def reject_def Let_def split: outcome.splits option.splits)
  with consistent_settle_call [OF assms(1) i] show ?thesis
    unfolding s' by (rule closing_processNext)
next
  case Tick
  with assms show ?thesis
    by (auto simp: closing_def consistent_def beat_def enqueue_def split: if_splits)
next
  case Disconnect
  with assms(2,3) show ?thesis by (auto simp: closing_def close_def)
qed

lemma closing_exec:
  "consistent K items s \<Longrightarrow> closing s \<Longrightarrow> exec K f evs s = Some s' \<Longrightarrow> closing s'"
proof (induction evs arbitrary: s)
  case Nil
  then show ?case by simp
next
  case (Cons ev evs)
  from Cons.prems obtain s1 where s1: "step K f ev s = Some s1" "exec K f evs s1 = Some s'"
    by (auto split: option.splits)
  have "consistent K items s1" using Cons.prems(1) s1(1) by (rule consistent_step)
  moreover have "closing s1" using Cons.prems(1,2) s1(1) by (rule closing_step)
  ultimately show ?case using Cons.IH s1(2) by blast
qed

text \<open>
  On a non-empty item list the terminal chunk is written at most once; when the returned
  promise has resolved it has been written exactly once, it is the last chunk on the
  channel, no call is pending and the transform has been called on every item.
\<close>

lemma terminal_chunk_once_nonempty:
  assumes "items \<noteq> []" and "exec K f evs (processConcurrently items f new_controller K) = Some s"
  shows "count_list (chunks (controller s)) EndOfStream \<le> 1 \<and>
         (promise s = Resolved \<longrightarrow>
            count_list (chunks (controller s)) EndOfStream = 1 \<and>
            last (chunks (controller s)) = EndOfStream \<and>
            pending s = [] \<and> invoked s = items)"
proof -
  let ?s0 = "\<lparr>queue = items, activePromises = 0, heartbeat = Running, promise = Pending,
        controller = new_controller, pending = [], invoked = [], unhandled = [], clears = 0\<rparr>"
  have "controller (launch 0 K f ?s0) = controller ?s0"
    using assms(1) launch_busy [of ?s0 0 K] by simp
  then have l: "closing (launch 0 K f ?s0)" by (simp add: closing_def new_controller_def)
  have "consistent K items (launch 0 K f ?s0)"
    by (rule consistent_launch [OF consistent_init])
  then have cl: "closing s"
    using l assms(2) unfolding processConcurrently_def by (rule closing_exec)
  have c: "consistent K items s" using assms(2) by (rule consistent_run)
  have "promise s = Resolved \<longrightarrow>
            count_list (chunks (controller s)) EndOfStream = 1 \<and>
            last (chunks (controller s)) = EndOfStream \<and>
            pending s = [] \<and> invoked s = items"
  proof
    assume r: "promise s = Resolved"
    with c have e: "EndOfStream \<in> set (chunks (controller s))" by (simp add: consistent_def)
    then have "count_list (chunks (controller s)) EndOfStream \<noteq> 0"
      by (simp add: count_list_0_iff)
    with cl have 1: "count_list (chunks (controller s)) EndOfStream = 1" by (simp add: closing_def)
    from cl e have 2: "last (chunks (controller s)) = EndOfStream" by (simp add: closing_def)
    from c e have "heartbeat s = Cleared" by (cases "heartbeat s") (auto simp: consistent_def)
    with c have "pending s = [] \<and> invoked s = items" by (auto simp: consistent_def)
    with 1 2 show "count_list (chunks (controller s)) EndOfStream = 1 \<and>
            last (chunks (controller s)) = EndOfStream \<and>
            pending s = [] \<and> invoked s = items" by blast
  qed
  with cl show ?thesis by (simp add: closing_def)
qed

section \<open>The terminal chunk on an empty item list\<close>

lemma launch_empty:
  "queue s = [] \<Longrightarrow> activePromises s = 0 \<Longrightarrow> \<not> closed (controller s) \<Longrightarrow>
   chunks (controller (launch i K f s)) =
     chunks (controller s) @ replicate (nat (K - i)) EndOfStream"
proof (induction i K f s rule: launch.induct)
  case (1 i K f s)
  show ?case
  proof (cases "i < K")
    case True
    let ?t = "processNext K f s"
    have t: "queue ?t = []" "activePromises ?t = 0" "\<not> closed (controller ?t)"
      "chunks (controller ?t) = chunks (controller s) @ [EndOfStream]"
      using "1.prems" by (simp_all add: processNext_def enqueue_def resolve_def Let_def)
    from True have "nat (K - i) = Suc (nat (K - (i + 1)))" by simp
    with "1.IH" [OF True t(1,2,3)] t(4) True show ?thesis
      by (simp add: launch.simps [of i] replicate_append_same)
  next
    case False
    then show ?thesis by (simp add: launch.simps [of i])
  qed
qed

text \<open>
  C2 at an empty item list. Each of the \<open>concurrency\<close> calls of \<^verbatim>\<open>processNext\<close> made by
  the loop finds the queue empty and no call pending, so each writes a terminal chunk:
  the channel of a run on no items holds \<open>concurrency\<close> terminal chunks when the call
  returns. Through the endpoints: a session posted with an empty body and then streamed
  gets five of them, the promise resolved.
\<close>

theorem terminal_chunk_repeated_on_empty_list:
  "chunks (controller (processConcurrently [] f new_controller K)) =
     replicate (nat K) EndOfStream \<and>
   GET (Some ''s'') (snd (POST ''s'' [] \<lparr>sessions = [], fresh = 0\<rparr>)) =
     (Inr \<lparr>captured = 0,
           stream = \<lparr>queue = [], activePromises = 0, heartbeat = Cleared, promise = Resolved,
             controller = \<lparr>chunks = [EndOfStream, EndOfStream, EndOfStream, EndOfStream,
                                     EndOfStream], closed = False\<rparr>,
             pending = [], invoked = [], unhandled = [], clears = 5\<rparr>\<rparr>,
      \<lparr>sessions = [(0, \<lparr>sessionId = ''s'', body = []\<rparr>)], fresh = 1\<rparr>)"
proof
  show "chunks (controller (processConcurrently [] f new_controller K)) =
     replicate (nat K) EndOfStream"
    unfolding processConcurrently_def
    by (simp add: launch_empty new_controller_def)
next
  show "GET (Some ''s'') (snd (POST ''s'' [] \<lparr>sessions = [], fresh = 0\<rparr>)) =
     (Inr \<lparr>captured = 0,
           stream = \<lparr>queue = [], activePromises = 0, heartbeat = Cleared, promise = Resolved,
             controller = \<lparr>chunks = [EndOfStream, EndOfStream, EndOfStream, EndOfStream,
                                     EndOfStream], closed = False\<rparr>,
             pending = [], invoked = [], unhandled = [], clears = 5\<rparr>\<rparr>,
      \<lparr>sessions = [(0, \<lparr>sessionId = ''s'', body = []\<rparr>)], fresh = 1\<rparr>)"
    by (simp add: GET_def POST_def run_defs)
qed

section \<open>How often the timer is cleared\<close>

lemma once_processNext:
  assumes "heartbeat s = Running" and "clears s = 0"
  shows "clears (processNext K f s) = (if heartbeat (processNext K f s) = Cleared then 1 else 0)"
  using assms unfolding processNext_def
  by (auto simp: enqueue_def resolve_def Let_def split: list.splits)

lemma settle_call_timer:
  "heartbeat (settle_call i s) = heartbeat s \<and> clears (settle_call i s) = clears s"
  unfolding settle_call_def write_result_def
  by (auto simp: enqueue_def reject_def Let_def split: outcome.splits option.splits)

lemma once_step:
  assumes "consistent K items s"
    and "clears s = (if heartbeat s = Cleared then 1 else 0)"
    and "step K f ev s = Some s'"
  shows "clears s' = (if heartbeat s' = Cleared then 1 else 0)"
proof (cases ev)
  case (Settle i)
  with assms(3) have i: "i < length (pending s)" and s': "s' = processNext K f (settle_call i s)"
    by (auto simp: resume_def split: if_splits)
  from assms(1) i have r: "heartbeat s = Running" by (auto intro: running_if_pending)
  with assms(2) have "heartbeat (settle_call i s) = Running" "clears (settle_call i s) = 0"
    by (simp_all add: settle_call_timer)
  then show ?thesis unfolding s' by (rule once_processNext)
next
  case Tick
  with assms(2,3) show ?thesis
    by (auto simp: beat_def enqueue_def split: if_splits)
next
  case Disconnect
  with assms(2,3) show ?thesis by auto
qed

lemma once_exec:
  "consistent K items s \<Longrightarrow> clears s = (if heartbeat s = Cleared then 1 else 0) \<Longrightarrow>
   exec K f evs s = Some s' \<Longrightarrow> clears s' = (if heartbeat s' = Cleared then 1 else 0)"
proof (induction evs arbitrary: s)
  case Nil
  then show ?case by simp
next
  case (Cons ev evs)
  from Cons.prems obtain s1 where s1: "step K f ev s = Some s1" "exec K f evs s1 = Some s'"
    by (auto split: option.splits)
  have "consistent K items s1" using Cons.prems(1) s1(1) by (rule consistent_step)
  moreover have "clears s1 = (if heartbeat s1 = Cleared then 1 else 0)"
    using Cons.prems(1,2) s1(1) by (rule once_step)
  ultimately show ?case using s1(2) by (rule Cons.IH)
qed

text \<open>
  On a non-empty item list \<^verbatim>\<open>clearInterval\<close> is called at most once, by the call of
  \<^verbatim>\<open>processNext\<close> that clears the timer, and with a positive concurrency it has been
  called once as soon as no call is pending.
\<close>

lemma timer_cleared_once_nonempty:
  assumes "items \<noteq> []" and "exec K f evs (processConcurrently items f new_controller K) = Some s"
  shows "clears s = (if heartbeat s = Cleared then 1 else 0) \<and>
         (0 < K \<and> pending s = [] \<longrightarrow> clears s = 1)"
proof -
  let ?s0 = "\<lparr>queue = items, activePromises = 0, heartbeat = Running, promise = Pending,
        controller = new_controller, pending = [], invoked = [], unhandled = [], clears = 0\<rparr>"
  have l: "clears (launch 0 K f ?s0) = (if heartbeat (launch 0 K f ?s0) = Cleared then 1 else 0)"
    using assms(1) launch_busy [of ?s0 0 K f] by simp
  have c0: "consistent K items (launch 0 K f ?s0)"
    by (rule consistent_launch [OF consistent_init])
  have 1: "clears s = (if heartbeat s = Cleared then 1 else 0)"
    using c0 l assms(2) [unfolded processConcurrently_def] by (rule once_exec)
  have 2: "0 < K \<and> pending s = [] \<longrightarrow> clears s = 1"
  proof
    assume k: "0 < K \<and> pending s = []"
    then have "drained s" using assms(2) by (auto intro: drained_run)
    with k 1 show "clears s = 1" by (simp add: drained_def)
  qed
  from 1 2 show ?thesis by blast
qed



section \<open>Writes to a stream that is no longer readable\<close>

text \<open>The heartbeat's write to a stream that is no longer readable leaves the run as it is.\<close>

lemma heartbeat_write_suppressed:
  "closed (controller s) \<Longrightarrow> beat s = s"
  by (simp add: beat_def enqueue_def)

text \<open>
  C6 at a client that disconnects while the only call is pending, with the concurrency
  the endpoint uses. The heartbeat that
  fires after the disconnect changes nothing: its failed write is caught. When the call
  then resolves with a data line, the failed write of the result goes to the \<^verbatim>\<open>catch\<close>
  and rejects the returned promise, and the failed terminal write leaves \<^verbatim>\<open>processNext\<close>
  as an exception nothing handles. When the call resolves with null, only the terminal
  write is attempted: it fails the same way, \<^verbatim>\<open>resolve\<close> is never reached and the
  returned promise stays pending.
\<close>

theorem write_after_close_not_suppressed:
  "exec 5 processItem [Disconnect, Tick]
     (processConcurrently [''a''] processItem new_controller 5) =
   Some \<lparr>queue = [], activePromises = 1, heartbeat = Running, promise = Pending,
        controller = \<lparr>chunks = [], closed = True\<rparr>,
        pending = [(''a'', Resolves (Some (''data: a'' @ [CHR 0x0A])))],
        invoked = [''a''], unhandled = [], clears = 0\<rparr> \<and>
   exec 5 processItem [Disconnect, Tick, Settle 0]
     (processConcurrently [''a''] processItem new_controller 5) =
   Some \<lparr>queue = [], activePromises = 0, heartbeat = Cleared, promise = Rejected TypeError,
        controller = \<lparr>chunks = [], closed = True\<rparr>,
        pending = [], invoked = [''a''], unhandled = [TypeError], clears = 1\<rparr> \<and>
   exec 5 (\<lambda>item. Resolves None) [Disconnect, Tick, Settle 0]
     (processConcurrently [''a''] (\<lambda>item. Resolves None) new_controller 5) =
   Some \<lparr>queue = [], activePromises = 0, heartbeat = Cleared, promise = Pending,
        controller = \<lparr>chunks = [], closed = True\<rparr>,
        pending = [], invoked = [''a''], unhandled = [TypeError], clears = 1\<rparr>"
  by (simp add: run_defs)

section \<open>Sessions and streams\<close>

lemma GET_found:
  assumes "GET param reg = (Inr r, reg')"
  shows "reg' = reg \<and>
         (\<exists>s. find (\<lambda>(ref, s). Some (sessionId s) = param) (sessions reg) = Some (captured r, s))"
  using assms unfolding GET_def
  by (auto split: option.splits prod.splits)

text \<open>
  The claim as stated fails: after a session has been posted, a first \<^verbatim>\<open>GET\<close> with its
  identifier opens a stream and leaves the registry as it was, and a second \<^verbatim>\<open>GET\<close>
  with the same identifier opens a stream again.
\<close>

theorem second_GET_succeeds:
  "snd (POST ''s'' [''a''] \<lparr>sessions = [], fresh = 0\<rparr>) =
     \<lparr>sessions = [(0, \<lparr>sessionId = ''s'', body = [''a'']\<rparr>)], fresh = 1\<rparr> \<and>
   GET (Some ''s'') \<lparr>sessions = [(0, \<lparr>sessionId = ''s'', body = [''a'']\<rparr>)], fresh = 1\<rparr> =
     (Inr \<lparr>captured = 0, stream = processConcurrently [''a''] processItem new_controller 5\<rparr>,
      \<lparr>sessions = [(0, \<lparr>sessionId = ''s'', body = [''a'']\<rparr>)], fresh = 1\<rparr>) \<and>
   fst (GET (Some ''s'')
         (snd (GET (Some ''s'')
                \<lparr>sessions = [(0, \<lparr>sessionId = ''s'', body = [''a'']\<rparr>)], fresh = 1\<rparr>))) =
     Inr \<lparr>captured = 0, stream = processConcurrently [''a''] processItem new_controller 5\<rparr>"
  by (simp add: GET_def POST_def)

text \<open>
  C3, as the code has it. A \<^verbatim>\<open>GET\<close> that opens a stream leaves the registry unchanged,
  so the same request opens the same session again. The session leaves the registry
  when the stream is cancelled; after that, identifiers in the registry being distinct,
  a \<^verbatim>\<open>GET\<close> with the same identifier fails with 404.
\<close>

theorem session_released_on_cancel_only:
  assumes "GET param reg = (Inr r, reg')"
  shows "reg' = reg \<and>
         GET param reg' = (Inr r, reg') \<and>
         captured r \<notin> fst ` set (sessions (cancel r reg')) \<and>
         (distinct (map (\<lambda>(ref, s). sessionId s) (sessions reg)) \<longrightarrow>
            GET param (cancel r reg') =
              (Inl (HttpError 404 ''Session not found''), cancel r reg'))"
proof -
  from GET_found [OF assms] obtain s where reg: "reg' = reg"
    and f: "find (\<lambda>(ref, s). Some (sessionId s) = param) (sessions reg) = Some (captured r, s)"
    by blast
  have 1: "GET param reg' = (Inr r, reg')" using assms reg by simp
  have 2: "captured r \<notin> fst ` set (sessions (cancel r reg'))"
    by (auto simp: cancel_def)
  have 3: "distinct (map (\<lambda>(ref, s). sessionId s) (sessions reg)) \<longrightarrow>
            GET param (cancel r reg') =
              (Inl (HttpError 404 ''Session not found''), cancel r reg')"
  proof
    assume d: "distinct (map (\<lambda>(ref, s). sessionId s) (sessions reg))"
    from f have m: "(captured r, s) \<in> set (sessions reg)" and p: "Some (sessionId s) = param"
      by (auto simp: find_Some_iff in_set_conv_nth)
    have "find (\<lambda>(ref, s). Some (sessionId s) = param) (sessions (cancel r reg)) = None"
    proof (rule ccontr)
      assume "find (\<lambda>(ref, s). Some (sessionId s) = param) (sessions (cancel r reg)) \<noteq> None"
      then obtain ref' s' where m': "(ref', s') \<in> set (sessions reg)" and n: "ref' \<noteq> captured r"
        and p': "Some (sessionId s') = param"
        by (auto simp: find_None_iff cancel_def)
      from d have "inj_on (\<lambda>(ref, s). sessionId s) (set (sessions reg))"
        by (simp add: distinct_map)
      with m m' p p' have "(ref', s') = (captured r, s)"
        by (auto dest!: inj_onD [where x = "(ref', s')" and y = "(captured r, s)"])
      with n show False by simp
    qed
    then show "GET param (cancel r reg') =
              (Inl (HttpError 404 ''Session not found''), cancel r reg')"
      using reg by (simp add: GET_def)
  qed
  from reg 1 2 3 show ?thesis by blast
qed

theorem session_released_on_cancel_only_witness:
  "GET (Some ''s'')
     \<lparr>sessions = [(0, \<lparr>sessionId = ''r'', body = []\<rparr>), (1, \<lparr>sessionId = ''s'', body = [''a'']\<rparr>)],
      fresh = 2\<rparr> =
     (Inr \<lparr>captured = 1, stream = processConcurrently [''a''] processItem new_controller 5\<rparr>,
      \<lparr>sessions = [(0, \<lparr>sessionId = ''r'', body = []\<rparr>), (1, \<lparr>sessionId = ''s'', body = [''a'']\<rparr>)],
       fresh = 2\<rparr>) \<and>
   distinct (map (\<lambda>(ref, s). sessionId s)
     [(0::nat, \<lparr>sessionId = ''r'', body = []\<rparr>), (1, \<lparr>sessionId = ''s'', body = [''a'']\<rparr>)]) \<and>
   cancel \<lparr>captured = 1, stream = processConcurrently [''a''] processItem new_controller 5\<rparr>
     \<lparr>sessions = [(0, \<lparr>sessionId = ''r'', body = []\<rparr>), (1, \<lparr>sessionId = ''s'', body = [''a'']\<rparr>)],
      fresh = 2\<rparr> =
     \<lparr>sessions = [(0, \<lparr>sessionId = ''r'', body = []\<rparr>)], fresh = 2\<rparr> \<and>
   GET (Some ''s'') \<lparr>sessions = [(0, \<lparr>sessionId = ''r'', body = []\<rparr>)], fresh = 2\<rparr> =
     (Inl (HttpError 404 ''Session not found''),
      \<lparr>sessions = [(0, \<lparr>sessionId = ''r'', body = []\<rparr>)], fresh = 2\<rparr>)"
proof -
  let ?reg = "\<lparr>sessions = [(0, \<lparr>sessionId = ''r'', body = []\<rparr>), (1, \<lparr>sessionId = ''s'', body = [''a'']\<rparr>)],
      fresh = 2\<rparr>"
  let ?r = "\<lparr>captured = 1, stream = processConcurrently [''a''] processItem new_controller 5\<rparr>"
  let ?reg' = "\<lparr>sessions = [(0, \<lparr>sessionId = ''r'', body = []\<rparr>)], fresh = 2\<rparr>"
  have g: "GET (Some ''s'') ?reg = (Inr ?r, ?reg)" by (simp add: GET_def)
  have d: "distinct (map (\<lambda>(ref, s). sessionId s) (sessions ?reg))" by simp
  have c: "cancel ?r ?reg = ?reg'" by (simp add: cancel_def)
  from session_released_on_cancel_only [OF g] d
  have "GET (Some ''s'') (cancel ?r ?reg) =
          (Inl (HttpError 404 ''Session not found''), cancel ?r ?reg)" by blast
  then have n: "GET (Some ''s'') ?reg' = (Inl (HttpError 404 ''Session not found''), ?reg')"
    unfolding c .
  from d have d': "distinct (map (\<lambda>(ref, s). sessionId s)
     [(0::nat, \<lparr>sessionId = ''r'', body = []\<rparr>), (1, \<lparr>sessionId = ''s'', body = [''a'']\<rparr>)])" by simp
  from g d' c n show ?thesis by blast
qed

section \<open>The client's keyed collection\<close>

lemma receive_snoc:
  "receive parseData (msgs @ [d]) store = snd (onmessage parseData d (receive parseData msgs store))"
  by (induction msgs arbitrary: store) auto

lemma map_filter_snoc:
  "List.map_filter g (xs @ [x]) = List.map_filter g xs @ (case g x of None \<Rightarrow> [] | Some y \<Rightarrow> [y])"
  by (simp add: List.map_filter_def split: option.splits)

lemma receive_lookup:
  "receive parseData msgs store k =
     (case find (\<lambda>r. key r = k)
             (rev (List.map_filter (\<lambda>d. case parseData d of Inl e \<Rightarrow> None | Inr r \<Rightarrow> Some r) msgs)) of
        Some r \<Rightarrow> Some r
      | None \<Rightarrow> store k)"
proof (induction msgs rule: rev_induct)
  case Nil
  then show ?case by (simp add: List.map_filter_def)
next
  case (snoc d msgs)
  show ?case
  proof (cases "parseData d")
    case (Inl e)
    with snoc show ?thesis
      by (simp add: receive_snoc map_filter_snoc onmessage_def)
  next
    case (Inr r)
    with snoc show ?thesis
      by (simp add: receive_snoc map_filter_snoc onmessage_def update_def)
  qed
qed

text \<open>
  C9. After any sequence of messages, the collection maps each key to the last record
  received with that key, and a key no record carried keeps the value it had. For three
  messages that parse to the records (x, 1), (x, 2) and (y, 3), received in this order
  by an empty collection, the collection ends as x with (x, 2) and y with (y, 3).
\<close>

theorem last_write_wins:
  "receive parseData msgs store k =
     (case find (\<lambda>r. key r = k)
             (rev (List.map_filter (\<lambda>d. case parseData d of Inl e \<Rightarrow> None | Inr r \<Rightarrow> Some r) msgs)) of
        Some r \<Rightarrow> Some r
      | None \<Rightarrow> store k) \<and>
   (parse m1 = Inr \<lparr>key = ''x'', v = 1\<rparr> \<and> parse m2 = Inr \<lparr>key = ''x'', v = 2\<rparr> \<and>
    parse m3 = Inr \<lparr>key = ''y'', v = 3\<rparr> \<longrightarrow>
      receive parse [m1, m2, m3] Map.empty =
        [''x'' \<mapsto> \<lparr>key = ''x'', v = 2\<rparr>, ''y'' \<mapsto> \<lparr>key = ''y'', v = 3\<rparr>])"
  by (rule conjI, rule receive_lookup) (simp add: onmessage_def update_def)

theorem last_write_wins_witness:
  "receive (\<lambda>d. if d = ''{key:x,v:1}'' then Inr \<lparr>key = ''x'', v = 1\<rparr>
                else if d = ''{key:x,v:2}'' then Inr \<lparr>key = ''x'', v = 2\<rparr>
                else if d = ''{key:y,v:3}'' then Inr \<lparr>key = ''y'', v = 3\<rparr>
                else Inl ''SyntaxError'')
      [''{key:x,v:1}'', ''{key:x,v:2}'', ''{key:y,v:3}''] Map.empty =
   [''x'' \<mapsto> \<lparr>key = ''x'', v = 2\<rparr>, ''y'' \<mapsto> \<lparr>key = ''y'', v = 3\<rparr>]"
proof -
  let ?p = "\<lambda>d. if d = ''{key:x,v:1}'' then Inr \<lparr>key = ''x'', v = 1\<rparr>
                else if d = ''{key:x,v:2}'' then Inr \<lparr>key = ''x'', v = 2\<rparr>
                else if d = ''{key:y,v:3}'' then Inr \<lparr>key = ''y'', v = 3\<rparr>
                else (Inl ''SyntaxError'' :: string + message)"
  have 1: "?p ''{key:x,v:1}'' = Inr \<lparr>key = ''x'', v = 1\<rparr>" by simp
  have 2: "?p ''{key:x,v:2}'' = Inr \<lparr>key = ''x'', v = 2\<rparr>" by simp
  have 3: "?p ''{key:y,v:3}'' = Inr \<lparr>key = ''y'', v = 3\<rparr>" by simp
  from last_write_wins [of _ "[]" _ _ ?p "''{key:x,v:1}''" "''{key:x,v:2}''" "''{key:y,v:3}''"] 1 2 3
  show ?thesis by blast
qed

text \<open>
  C10. When the parser throws on a message, the handler returns what was thrown and the
  collection it was given, unchanged; the messages that follow are handled from that
  same collection.
\<close>

theorem parse_failure_keeps_collection:
  assumes "parseData d = Inl e"
  shows "onmessage parseData d store = (Some e, store) \<and>
         receive parseData (d # rest) store = receive parseData rest store"
  using assms by (simp add: onmessage_def)

theorem parse_failure_keeps_collection_witness:
  "onmessage (\<lambda>d. if d = ''{key:x,v:1}'' then Inr \<lparr>key = ''x'', v = 1\<rparr> else Inl ''SyntaxError'')
     ''{key:'' [''x'' \<mapsto> \<lparr>key = ''x'', v = 1\<rparr>] =
     (Some ''SyntaxError'', [''x'' \<mapsto> \<lparr>key = ''x'', v = 1\<rparr>]) \<and>
   receive (\<lambda>d. if d = ''{key:x,v:1}'' then Inr \<lparr>key = ''x'', v = 1\<rparr> else Inl ''SyntaxError'')
     [''{key:'', ''{key:x,v:1}''] Map.empty =
   receive (\<lambda>d. if d = ''{key:x,v:1}'' then Inr \<lparr>key = ''x'', v = 1\<rparr> else Inl ''SyntaxError'')
     [''{key:x,v:1}''] Map.empty"
proof -
  let ?p = "\<lambda>d. if d = ''{key:x,v:1}'' then Inr \<lparr>key = ''x'', v = 1\<rparr>
                 else (Inl ''SyntaxError'' :: string + message)"
  have f: "?p ''{key:'' = Inl ''SyntaxError''" by simp
  from f parse_failure_keeps_collection
            [of ?p "''{key:''" "''SyntaxError''" "[''x'' \<mapsto> \<lparr>key = ''x'', v = 1\<rparr>]" "[]"]
  have 1: "onmessage ?p ''{key:'' [''x'' \<mapsto> \<lparr>key = ''x'', v = 1\<rparr>] =
             (Some ''SyntaxError'', [''x'' \<mapsto> \<lparr>key = ''x'', v = 1\<rparr>])"
    by blast
  from f parse_failure_keeps_collection
            [of ?p "''{key:''" "''SyntaxError''" Map.empty "[''{key:x,v:1}'']"]
  have 2: "receive ?p [''{key:'', ''{key:x,v:1}''] Map.empty =
           receive ?p [''{key:x,v:1}''] Map.empty"
    by blast
  from 1 2 show ?thesis by blast
qed

end
